theory Spec2Isabelle
  imports Main
begin

section \<open>The terminal driver (libuv) as a parameter\<close>

text \<open>
  \<^verbatim>\<open>src/uvw/tty.hpp\<close> wraps the terminal functions of libuv. Their code is not part of
  the wrapper, so the driver is a parameter of every definition below: a record holding
  the enumeration constants of \<^verbatim>\<open>uv.h\<close> and, for each function the wrapper calls, its
  effect on an abstract driver state \<open>'w\<close> (the terminal and everything else the
  operating system keeps) together with the status code it returns.

  A pointer argument through which the driver may store a result is passed as the contents
  of the pointee before the call and returned as its contents after the call; a call that
  stores nothing returns what it was given.
\<close>

type_synonym FileHandle = int

record 'w libuv =
  UV_TTY_MODE_NORMAL :: int
  UV_TTY_MODE_RAW :: int
  UV_TTY_MODE_IO :: int
  UV_TTY_SUPPORTED :: int
  UV_TTY_UNSUPPORTED :: int
  uv_tty_init :: "nat \<Rightarrow> FileHandle \<Rightarrow> int \<Rightarrow> 'w \<Rightarrow> int \<times> 'w"
  uv_tty_set_mode :: "nat \<Rightarrow> int \<Rightarrow> 'w \<Rightarrow> int \<times> 'w"
  uv_tty_reset_mode :: "'w \<Rightarrow> int \<times> 'w"
  uv_tty_get_winsize :: "nat \<Rightarrow> int \<times> int \<Rightarrow> 'w \<Rightarrow> int \<times> (int \<times> int) \<times> 'w"
  uv_tty_set_vterm_state :: "int \<Rightarrow> 'w \<Rightarrow> 'w"
  uv_tty_get_vterm_state :: "int \<Rightarrow> 'w \<Rightarrow> int \<times> int \<times> 'w"

text \<open>The calls the wrapper makes into the driver, in the order it makes them.\<close>

datatype uv_call =
    Tty_init nat FileHandle int
  | Tty_set_mode nat int
  | Tty_reset_mode
  | Tty_get_winsize nat
  | Tty_set_vterm_state int
  | Tty_get_vterm_state


section \<open>Data model\<close>

text \<open>
  \<^verbatim>\<open>enum class UVTTYModeT\<close> and \<^verbatim>\<open>enum class UVTTYVTermStateT\<close> are scoped enumerations
  over the underlying integer type of the libuv enumerations, each enumerator defined as
  the libuv constant of the same name. A value of such a type is an integer of the
  underlying type, which need not be one of the enumerators.
\<close>

type_synonym Mode = int
type_synonym VTermState = int

definition NORMAL :: "'w libuv \<Rightarrow> Mode" where
  "NORMAL uv = UV_TTY_MODE_NORMAL uv"

definition RAW :: "'w libuv \<Rightarrow> Mode" where
  "RAW uv = UV_TTY_MODE_RAW uv"

definition IO :: "'w libuv \<Rightarrow> Mode" where
  "IO uv = UV_TTY_MODE_IO uv"

definition SUPPORTED :: "'w libuv \<Rightarrow> VTermState" where
  "SUPPORTED uv = UV_TTY_SUPPORTED uv"

definition UNSUPPORTED :: "'w libuv \<Rightarrow> VTermState" where
  "UNSUPPORTED uv = UV_TTY_UNSUPPORTED uv"

text \<open>
  Modelled from the spec: \<^verbatim>\<open>WinSize\<close> is declared in \<^verbatim>\<open>util.hpp\<close>, which is not among the
  sources; the spec gives it two signed integer fields, width and height.
\<close>

record WinSize =
  width :: int
  height :: int

text \<open>
  The private members of \<^verbatim>\<open>TTYHandle\<close>. A \<^verbatim>\<open>std::shared_ptr<ResetModeMemo>\<close> is the
  address of the guard it shares, or \<open>None\<close> when it is empty.
\<close>

record TTYHandle =
  memo :: "nat option"
  fd :: FileHandle
  rw :: int

text \<open>
  The state of the process:
  \<^item> \<open>weak\<close> is the function-local static \<^verbatim>\<open>std::weak_ptr\<close> of \<^verbatim>\<open>resetModeMemo\<close>, empty
    until it is first assigned;
  \<^item> \<open>guards\<close> is the store of \<^verbatim>\<open>ResetModeMemo\<close> objects ever allocated, indexed by
    address, each with the number of shared pointers that own it (its use count); an
    object whose use count is 0 has been destroyed, and its address is never reused;
  \<^item> \<open>handles\<close> is the store of \<^verbatim>\<open>TTYHandle\<close> objects, indexed by address, \<open>None\<close> once
    the handle has been destroyed;
  \<^item> \<open>world\<close> is the state of the driver and \<open>calls\<close> the calls made into it so far.
\<close>

record 'w process =
  weak :: "nat option"
  guards :: "nat list"
  handles :: "TTYHandle option list"
  world :: 'w
  calls :: "uv_call list"

definition start :: "'w \<Rightarrow> 'w process" where
  "start w = \<lparr>weak = None, guards = [], handles = [], world = w, calls = []\<rparr>"

definition lookup :: "'w process \<Rightarrow> nat \<Rightarrow> TTYHandle option" where
  "lookup s a = (if a < length (handles s) then handles s ! a else None)"


section \<open>Calls into the driver\<close>

text \<open>Each call changes the driver state and is recorded.\<close>

definition call_tty_init ::
  "'w libuv \<Rightarrow> nat \<Rightarrow> FileHandle \<Rightarrow> int \<Rightarrow> 'w process \<Rightarrow> int \<times> 'w process" where
  "call_tty_init uv h desc readable s =
     (let (rc, w) = uv_tty_init uv h desc readable (world s)
      in (rc, s\<lparr>world := w, calls := calls s @ [Tty_init h desc readable]\<rparr>))"

definition call_tty_set_mode ::
  "'w libuv \<Rightarrow> nat \<Rightarrow> int \<Rightarrow> 'w process \<Rightarrow> int \<times> 'w process" where
  "call_tty_set_mode uv h m s =
     (let (rc, w) = uv_tty_set_mode uv h m (world s)
      in (rc, s\<lparr>world := w, calls := calls s @ [Tty_set_mode h m]\<rparr>))"

definition call_tty_reset_mode :: "'w libuv \<Rightarrow> 'w process \<Rightarrow> int \<times> 'w process" where
  "call_tty_reset_mode uv s =
     (let (rc, w) = uv_tty_reset_mode uv (world s)
      in (rc, s\<lparr>world := w, calls := calls s @ [Tty_reset_mode]\<rparr>))"

definition call_tty_get_winsize ::
  "'w libuv \<Rightarrow> nat \<Rightarrow> int \<times> int \<Rightarrow> 'w process \<Rightarrow> int \<times> (int \<times> int) \<times> 'w process" where
  "call_tty_get_winsize uv h out s =
     (let (rc, out', w) = uv_tty_get_winsize uv h out (world s)
      in (rc, out', s\<lparr>world := w, calls := calls s @ [Tty_get_winsize h]\<rparr>))"

definition call_tty_set_vterm_state :: "'w libuv \<Rightarrow> int \<Rightarrow> 'w process \<Rightarrow> 'w process" where
  "call_tty_set_vterm_state uv v s =
     s\<lparr>world := uv_tty_set_vterm_state uv v (world s),
       calls := calls s @ [Tty_set_vterm_state v]\<rparr>"

definition call_tty_get_vterm_state ::
  "'w libuv \<Rightarrow> int \<Rightarrow> 'w process \<Rightarrow> int \<times> int \<times> 'w process" where
  "call_tty_get_vterm_state uv out s =
     (let (rc, out', w) = uv_tty_get_vterm_state uv out (world s)
      in (rc, out', s\<lparr>world := w, calls := calls s @ [Tty_get_vterm_state]\<rparr>))"


section \<open>The reset guard\<close>

text \<open>\<^verbatim>\<open>~ResetModeMemo\<close> calls \<^verbatim>\<open>uv_tty_reset_mode\<close> and drops its status.\<close>

definition ResetModeMemo_dtor :: "'w libuv \<Rightarrow> 'w process \<Rightarrow> 'w process" where
  "ResetModeMemo_dtor uv s = snd (call_tty_reset_mode uv s)"

text \<open>
  The three operations of the standard library the wrapper uses on the guard.
  \<^verbatim>\<open>weak.lock()\<close> yields an owning pointer, and one more owner, when the observed object
  is still alive, and an empty pointer otherwise. \<^verbatim>\<open>std::make_shared\<close> allocates a fresh
  object with one owner. Destroying an owning pointer removes one owner and destroys the
  object with the last one. A pointer to an object without owners does not arise from
  these operations; releasing one is left without effect.
\<close>

definition weak_lock :: "'w process \<Rightarrow> nat option \<times> 'w process" where
  "weak_lock s =
     (case weak s of
        None \<Rightarrow> (None, s)
      | Some g \<Rightarrow>
          if g < length (guards s) \<and> 0 < guards s ! g
          then (Some g, s\<lparr>guards := (guards s)[g := guards s ! g + 1]\<rparr>)
          else (None, s))"

definition make_shared :: "'w process \<Rightarrow> nat option \<times> 'w process" where
  "make_shared s = (Some (length (guards s)), s\<lparr>guards := guards s @ [1]\<rparr>)"

definition shared_release :: "'w libuv \<Rightarrow> nat option \<Rightarrow> 'w process \<Rightarrow> 'w process" where
  "shared_release uv p s =
     (case p of
        None \<Rightarrow> s
      | Some g \<Rightarrow>
          if g < length (guards s) \<and> 0 < guards s ! g
          then (let s' = s\<lparr>guards := (guards s)[g := guards s ! g - 1]\<rparr>
                in if guards s' ! g = 0 then ResetModeMemo_dtor uv s' else s')
          else s)"

text \<open>
  \<^verbatim>\<open>TTYHandle::resetModeMemo\<close>: lock the static weak pointer; when that gives nothing,
  make a new guard and let the weak pointer observe it.
\<close>

definition resetModeMemo :: "'w process \<Rightarrow> nat option \<times> 'w process" where
  "resetModeMemo s =
     (let (shared, s1) = weak_lock s
      in if shared = None
         then (let (fresh, s2) = make_shared s1 in (fresh, s2\<lparr>weak := fresh\<rparr>))
         else (shared, s1))"


section \<open>TTYHandle\<close>

text \<open>
  The constructor initialises \<open>memo\<close> from \<^verbatim>\<open>resetModeMemo()\<close>, \<open>fd\<close> from the descriptor and
  the integer \<open>rw\<close> from the boolean \<open>readable\<close>. The new object gets the next free address,
  which is returned. The base class and the loop it is given are not modelled.
\<close>

definition TTYHandle_ctor :: "FileHandle \<Rightarrow> bool \<Rightarrow> 'w process \<Rightarrow> nat \<times> 'w process" where
  "TTYHandle_ctor desc readable s =
     (let (m, s1) = resetModeMemo s;
          h = \<lparr>memo = m, fd = desc, rw = (if readable then 1 else 0)\<rparr>
      in (length (handles s1), s1\<lparr>handles := handles s1 @ [Some h]\<rparr>))"

text \<open>
  The implicit destructor destroys the members, of which only \<open>memo\<close> does anything.
  Where there is no handle there is nothing to destroy.
\<close>

definition TTYHandle_dtor :: "'w libuv \<Rightarrow> nat \<Rightarrow> 'w process \<Rightarrow> 'w process" where
  "TTYHandle_dtor uv this s =
     (case lookup s this of
        None \<Rightarrow> s
      | Some h \<Rightarrow> shared_release uv (memo h) (s\<lparr>handles := (handles s)[this := None]\<rparr>))"

text \<open>
  Modelled from the spec: \<^verbatim>\<open>initialize\<close> is a member of the handle base class, which is not
  among the sources. The spec describes it as the generic pattern
  \<^verbatim>\<open>initialize(fn, fd, flags) -> bool\<close> that \<^verbatim>\<open>init()\<close> uses to bind the handle with the
  driver, false when the call fails: it applies the function to the handle's resource and
  the arguments, and reports whether the status is 0.
\<close>

definition initialize ::
  "(nat \<Rightarrow> FileHandle \<Rightarrow> int \<Rightarrow> 'w process \<Rightarrow> int \<times> 'w process)
     \<Rightarrow> nat \<Rightarrow> FileHandle \<Rightarrow> int \<Rightarrow> 'w process \<Rightarrow> bool \<times> 'w process" where
  "initialize f this desc flags s = (let (err, s') = f this desc flags s in (err = 0, s'))"

text \<open>
  The member functions. \<open>this\<close> is the address of the handle, which stands for the
  \<^verbatim>\<open>uv_tty_t\<close> resource that \<^verbatim>\<open>get()\<close> returns; \<open>h\<close> holds the members of the object.
\<close>

definition init :: "'w libuv \<Rightarrow> nat \<Rightarrow> TTYHandle \<Rightarrow> 'w process \<Rightarrow> bool \<times> 'w process" where
  "init uv this h s = initialize (call_tty_init uv) this (fd h) (rw h) s"

definition mode :: "'w libuv \<Rightarrow> nat \<Rightarrow> Mode \<Rightarrow> 'w process \<Rightarrow> bool \<times> 'w process" where
  "mode uv this m s = (let (rc, s') = call_tty_set_mode uv this m s in (0 = rc, s'))"

definition reset :: "'w libuv \<Rightarrow> 'w process \<Rightarrow> bool \<times> 'w process" where
  "reset uv s = (let (rc, s') = call_tty_reset_mode uv s in (0 = rc, s'))"

text \<open>
  \<^verbatim>\<open>WinSize size;\<close> is not initialised: \<open>size0\<close> is whatever the two fields hold before the
  call.
\<close>

definition getWinSize ::
  "'w libuv \<Rightarrow> nat \<Rightarrow> WinSize \<Rightarrow> 'w process \<Rightarrow> WinSize \<times> 'w process" where
  "getWinSize uv this size0 s =
     (let (rc, (w, h), s') = call_tty_get_winsize uv this (width size0, height size0) s;
          size = \<lparr>width = w, height = h\<rparr>
      in if 0 \<noteq> rc then (size\<lparr>width := - 1, height := - 1\<rparr>, s') else (size, s'))"

text \<open>The setter: a \<^verbatim>\<open>switch\<close> over the two enumerators, without a default.\<close>

definition vtermState_set :: "'w libuv \<Rightarrow> VTermState \<Rightarrow> 'w process \<Rightarrow> 'w process" where
  "vtermState_set uv v s =
     (if v = SUPPORTED uv then call_tty_set_vterm_state uv (UV_TTY_SUPPORTED uv) s
      else if v = UNSUPPORTED uv then call_tty_set_vterm_state uv (UV_TTY_UNSUPPORTED uv) s
      else s)"

text \<open>
  The accessor: \<^verbatim>\<open>uv_tty_vtermstate_t state;\<close> is not initialised, \<open>state0\<close> is what it holds
  before the call. The status of the call is dropped.
\<close>

definition vtermState_get :: "'w libuv \<Rightarrow> int \<Rightarrow> 'w process \<Rightarrow> VTermState \<times> 'w process" where
  "vtermState_get uv state0 s =
     (let (rc, state, s') = call_tty_get_vterm_state uv state0 s in (state, s'))"


section \<open>Runs of a process\<close>

datatype event =
    Construct FileHandle bool
  | Destroy nat
  | Init nat
  | SetMode nat Mode
  | Reset nat
  | GetWinSize nat WinSize
  | SetVTermState nat VTermState
  | GetVTermState nat int

text \<open>
  One step of the program that uses the handles. A member function or the destructor can
  only be called on a handle that exists.
\<close>

definition on_handle ::
  "'w process \<Rightarrow> nat \<Rightarrow> (TTYHandle \<Rightarrow> 'w process) \<Rightarrow> 'w process option" where
  "on_handle s a f = (case lookup s a of None \<Rightarrow> None | Some h \<Rightarrow> Some (f h))"

fun step :: "'w libuv \<Rightarrow> event \<Rightarrow> 'w process \<Rightarrow> 'w process option" where
  "step uv (Construct desc readable) s = Some (snd (TTYHandle_ctor desc readable s))"
| "step uv (Destroy a) s = on_handle s a (\<lambda>h. TTYHandle_dtor uv a s)"
| "step uv (Init a) s = on_handle s a (\<lambda>h. snd (init uv a h s))"
| "step uv (SetMode a m) s = on_handle s a (\<lambda>h. snd (mode uv a m s))"
| "step uv (Reset a) s = on_handle s a (\<lambda>h. snd (reset uv s))"
| "step uv (GetWinSize a size0) s = on_handle s a (\<lambda>h. snd (getWinSize uv a size0 s))"
| "step uv (SetVTermState a v) s = on_handle s a (\<lambda>h. vtermState_set uv v s)"
| "step uv (GetVTermState a state0) s = on_handle s a (\<lambda>h. snd (vtermState_get uv state0 s))"

fun run :: "'w libuv \<Rightarrow> event list \<Rightarrow> 'w process \<Rightarrow> 'w process option" where
  "run uv [] s = Some s"
| "run uv (e # es) s = (case step uv e s of None \<Rightarrow> None | Some s' \<Rightarrow> run uv es s')"

text \<open>Observations of a state.\<close>

definition live_count :: "'w process \<Rightarrow> nat" where
  "live_count s = length (filter (\<lambda>h. h \<noteq> None) (handles s))"

definition live_guards :: "'w process \<Rightarrow> nat list" where
  "live_guards s = filter (\<lambda>g. 0 < guards s ! g) [0 ..< length (guards s)]"

definition resets :: "'w process \<Rightarrow> nat" where
  "resets s = count_list (calls s) Tty_reset_mode"

datatype guard_state = NoInstance | Live nat

definition guard_state_of :: "'w process \<Rightarrow> guard_state" where
  "guard_state_of s =
     (case live_guards s of [] \<Rightarrow> NoInstance | g # _ \<Rightarrow> Live (guards s ! g))"


text \<open>\<open>n\<close> calls of \<^verbatim>\<open>reset()\<close> in succession.\<close>

definition reset_times :: "'w libuv \<Rightarrow> nat \<Rightarrow> 'w process \<Rightarrow> 'w process" where
  "reset_times uv n s = ((\<lambda>t. snd (reset uv t)) ^^ n) s"


section \<open>Constructions that overlap\<close>

text \<open>
  Nothing in \<^verbatim>\<open>resetModeMemo\<close> keeps two threads from running it at once. Its body is cut
  here at the one place where another thread can come in between a read and a write of
  the static weak pointer: \<open>resetModeMemo_lock\<close> is the statement
  \<^verbatim>\<open>auto shared = weak.lock();\<close> and \<open>resetModeMemo_make\<close> is the rest, the \<^verbatim>\<open>if\<close> with
  the assignment and the \<^verbatim>\<open>return\<close>. \<open>TTYHandle_members\<close> is the initialisation of the members
  from the pointer that was returned.
\<close>

definition resetModeMemo_lock :: "'w process \<Rightarrow> nat option \<times> 'w process" where
  "resetModeMemo_lock s = weak_lock s"

definition resetModeMemo_make :: "nat option \<Rightarrow> 'w process \<Rightarrow> nat option \<times> 'w process" where
  "resetModeMemo_make shared s1 =
     (if shared = None
      then (let (fresh, s2) = make_shared s1 in (fresh, s2\<lparr>weak := fresh\<rparr>))
      else (shared, s1))"

definition TTYHandle_members ::
  "nat option \<Rightarrow> FileHandle \<Rightarrow> bool \<Rightarrow> 'w process \<Rightarrow> nat \<times> 'w process" where
  "TTYHandle_members m desc readable s1 =
     (let h = \<lparr>memo = m, fd = desc, rw = (if readable then 1 else 0)\<rparr>
      in (length (handles s1), s1\<lparr>handles := handles s1 @ [Some h]\<rparr>))"

text \<open>
  Two threads construct a handle each. Both lock the weak pointer before either goes on;
  then the first finishes its construction, and then the second.
\<close>

definition overlapped_ctors ::
  "FileHandle \<Rightarrow> bool \<Rightarrow> FileHandle \<Rightarrow> bool \<Rightarrow> 'w process \<Rightarrow> 'w process" where
  "overlapped_ctors desc1 readable1 desc2 readable2 s =
     (let (shared1, sa) = resetModeMemo_lock s;
          (shared2, sb) = resetModeMemo_lock sa;
          (m1, sc) = resetModeMemo_make shared1 sb;
          (this1, sd) = TTYHandle_members m1 desc1 readable1 sc;
          (m2, se) = resetModeMemo_make shared2 sd;
          (this2, sf) = TTYHandle_members m2 desc2 readable2 se
      in sf)"


section \<open>The invariant of the guard\<close>

text \<open>
  What every state of a run satisfies: the guard that the static weak pointer observes is
  owned by exactly the handles that exist, every other guard has no owner, and every
  handle shares the observed guard.
\<close>

definition guard_inv :: "'w process \<Rightarrow> bool" where
  "guard_inv s \<longleftrightarrow>
     (\<forall>g \<in> {0 ..< length (guards s)}.
        guards s ! g = (if weak s = Some g then live_count s else 0)) \<and>
     (\<forall>h \<in> set (handles s). case h of None \<Rightarrow> True | Some x \<Rightarrow> weak s \<noteq> None \<and> memo x = weak s) \<and>
     (case weak s of None \<Rightarrow> True | Some g \<Rightarrow> g < length (guards s))"

text \<open>
  One lifecycle of the guard: handles are constructed one after the other, for the given
  descriptors and readability flags, and then destroyed in the given order, in which \<open>i\<close>
  stands for the \<open>i\<close>-th of the handles constructed. Several lifecycles follow one another.
\<close>

definition lifecycle ::
  "'w libuv \<Rightarrow> (FileHandle \<times> bool) list \<Rightarrow> nat list \<Rightarrow> 'w process \<Rightarrow> 'w process option" where
  "lifecycle uv specs order s =
     run uv (map (\<lambda>(desc, readable). Construct desc readable) specs @
             map (\<lambda>i. Destroy (length (handles s) + i)) order) s"

fun lifecycles ::
  "'w libuv \<Rightarrow> ((FileHandle \<times> bool) list \<times> nat list) list \<Rightarrow> 'w process \<Rightarrow> 'w process option" where
  "lifecycles uv [] s = Some s"
| "lifecycles uv ((specs, order) # ls) s =
     (case lifecycle uv specs order s of None \<Rightarrow> None | Some s' \<Rightarrow> lifecycles uv ls s')"


section \<open>Two concrete drivers\<close>

text \<open>
  A terminal as in the scenario of the spec, 80 columns by 24 rows on the descriptors 0 to
  2, on a Unix-like platform: the driver state is the current mode of the terminal, which
  a reset puts back to 0; setting the virtual terminal state is ignored and reading it is
  not implemented. The second driver has no terminal at all.
\<close>

definition mock_uv :: "int libuv" where
  "mock_uv =
     \<lparr>UV_TTY_MODE_NORMAL = 0, UV_TTY_MODE_RAW = 1, UV_TTY_MODE_IO = 2,
      UV_TTY_SUPPORTED = 0, UV_TTY_UNSUPPORTED = 1,
      uv_tty_init = (\<lambda>h d r w. (if 0 \<le> d \<and> d \<le> 2 then 0 else - 22, w)),
      uv_tty_set_mode = (\<lambda>h m w. (0, m)),
      uv_tty_reset_mode = (\<lambda>w. (0, 0)),
      uv_tty_get_winsize = (\<lambda>h out w. (0, (80, 24), w)),
      uv_tty_set_vterm_state = (\<lambda>v w. w),
      uv_tty_get_vterm_state = (\<lambda>out w. (- 95, out, w))\<rparr>"

definition notty_uv :: "int libuv" where
  "notty_uv =
     mock_uv\<lparr>uv_tty_init := (\<lambda>h d r w. (- 22, w)),
             uv_tty_set_mode := (\<lambda>h m w. (- 25, w)),
             uv_tty_get_winsize := (\<lambda>h out w. (- 25, out, w))\<rparr>"


section \<open>The control operations\<close>

text \<open>
  Claim C5. For each of the modes \<open>NORMAL\<close>, \<open>RAW\<close> and \<open>IO\<close>, \<open>mode\<close> makes one call of
  \<^verbatim>\<open>uv_tty_set_mode\<close> on the resource of the handle with the libuv constant of that mode,
  returns true exactly when the status of this call is 0, and leaves the process as it was
  apart from the effect of the call on the driver: the boolean is its only outcome.
\<close>

theorem mode_result:
  "mode uv this (NORMAL uv) s =
     (fst (uv_tty_set_mode uv this (UV_TTY_MODE_NORMAL uv) (world s)) = 0,
      s\<lparr>world := snd (uv_tty_set_mode uv this (UV_TTY_MODE_NORMAL uv) (world s)),
        calls := calls s @ [Tty_set_mode this (UV_TTY_MODE_NORMAL uv)]\<rparr>)
   \<and> mode uv this (RAW uv) s =
     (fst (uv_tty_set_mode uv this (UV_TTY_MODE_RAW uv) (world s)) = 0,
      s\<lparr>world := snd (uv_tty_set_mode uv this (UV_TTY_MODE_RAW uv) (world s)),
        calls := calls s @ [Tty_set_mode this (UV_TTY_MODE_RAW uv)]\<rparr>)
   \<and> mode uv this (IO uv) s =
     (fst (uv_tty_set_mode uv this (UV_TTY_MODE_IO uv) (world s)) = 0,
      s\<lparr>world := snd (uv_tty_set_mode uv this (UV_TTY_MODE_IO uv) (world s)),
        calls := calls s @ [Tty_set_mode this (UV_TTY_MODE_IO uv)]\<rparr>)"
  by (auto simp: mode_def call_tty_set_mode_def NORMAL_def RAW_def IO_def split: prod.splits)

theorem mode_result_witness:
  "fst (mode mock_uv 0 (RAW mock_uv) (start 0)) \<and> fst (mode mock_uv 0 (NORMAL mock_uv) (start 0))
   \<and> \<not> fst (mode notty_uv 0 (RAW notty_uv) (start 0))
   \<and> \<not> fst (mode notty_uv 0 (NORMAL notty_uv) (start 0))"
  using mode_result [of mock_uv 0 "start 0"] mode_result [of notty_uv 0 "start 0"]
  by (simp add: mock_uv_def notty_uv_def start_def)

text \<open>
  Claim C4. \<open>getWinSize\<close> returns the pair that \<^verbatim>\<open>uv_tty_get_winsize\<close> left in the two
  fields when the status of the call is 0, and exactly \<open>(-1, -1)\<close> otherwise. The wrapper
  does not look at a reported size; a driver that reports sizes that are not negative thus
  makes every result either two fields that are at least 0 or twice the sentinel \<open>-1\<close>,
  never one of each.
\<close>

theorem getWinSize_result:
  "fst (getWinSize uv this size0 s) =
     (if fst (uv_tty_get_winsize uv this (width size0, height size0) (world s)) = 0
      then \<lparr>width = fst (fst (snd (uv_tty_get_winsize uv this (width size0, height size0) (world s)))),
            height = snd (fst (snd (uv_tty_get_winsize uv this (width size0, height size0) (world s))))\<rparr>
      else \<lparr>width = - 1, height = - 1\<rparr>)
   \<and> ((fst (uv_tty_get_winsize uv this (width size0, height size0) (world s)) = 0 \<longrightarrow>
          0 \<le> fst (fst (snd (uv_tty_get_winsize uv this (width size0, height size0) (world s)))) \<and>
          0 \<le> snd (fst (snd (uv_tty_get_winsize uv this (width size0, height size0) (world s))))) \<longrightarrow>
        (0 \<le> width (fst (getWinSize uv this size0 s)) \<and> 0 \<le> height (fst (getWinSize uv this size0 s))) \<or>
        (width (fst (getWinSize uv this size0 s)) = - 1 \<and> height (fst (getWinSize uv this size0 s)) = - 1))"
  by (auto simp: getWinSize_def call_tty_get_winsize_def Let_def split: prod.splits)

theorem getWinSize_result_witness:
  "fst (uv_tty_get_winsize mock_uv 0 (3, 4) (world (start 0))) = 0
   \<and> fst (getWinSize mock_uv 0 \<lparr>width = 3, height = 4\<rparr> (start 0)) = \<lparr>width = 80, height = 24\<rparr>
   \<and> fst (uv_tty_get_winsize notty_uv 0 (3, 4) (world (start 0))) \<noteq> 0
   \<and> fst (getWinSize notty_uv 0 \<lparr>width = 3, height = 4\<rparr> (start 0)) = \<lparr>width = - 1, height = - 1\<rparr>"
  using getWinSize_result [of mock_uv 0 "\<lparr>width = 3, height = 4\<rparr>" "start 0"]
        getWinSize_result [of notty_uv 0 "\<lparr>width = 3, height = 4\<rparr>" "start 0"]
  by (simp add: mock_uv_def notty_uv_def start_def)

lemma reset_unfold:
  "reset uv s =
     (fst (uv_tty_reset_mode uv (world s)) = 0,
      s\<lparr>world := snd (uv_tty_reset_mode uv (world s)), calls := calls s @ [Tty_reset_mode]\<rparr>)"
  by (auto simp: reset_def call_tty_reset_mode_def split: prod.splits)

lemma reset_times_frame:
  "weak (reset_times uv n s) = weak s \<and> guards (reset_times uv n s) = guards s \<and>
   handles (reset_times uv n s) = handles s \<and>
   calls (reset_times uv n s) = calls s @ replicate n Tty_reset_mode"
  by (induction n) (simp_all add: reset_times_def reset_unfold replicate_append_same)

lemma reset_times_world:
  assumes "\<forall>w. snd (uv_tty_reset_mode uv (snd (uv_tty_reset_mode uv w))) = snd (uv_tty_reset_mode uv w)"
  shows "world (reset_times uv (Suc n) s) = snd (uv_tty_reset_mode uv (world s))"
proof (induction n)
  case 0
  show ?case by (simp add: reset_times_def reset_unfold)
next
  case (Suc n)
  have "world (reset_times uv (Suc (Suc n)) s) =
          snd (uv_tty_reset_mode uv (world (reset_times uv (Suc n) s)))"
    by (simp add: reset_times_def reset_unfold)
  with Suc assms show ?case by simp
qed

text \<open>
  Claim C6. Each call of \<open>reset\<close> returns true exactly when \<^verbatim>\<open>uv_tty_reset_mode\<close> returns
  0, and changes nothing but the driver: the guard, its use count, the static weak pointer
  and the handles are as before, after any number of calls, each of which is one call of
  the driver. The wrapper keeps no state of its own between calls, so whenever resetting
  the terminal twice is for the driver the same as resetting it once, any number of calls
  in succession, at least one, leaves the terminal as a single call does.
\<close>

theorem reset_idempotent:
  "fst (reset uv s) = (fst (uv_tty_reset_mode uv (world s)) = 0)
   \<and> snd (reset uv s) =
       s\<lparr>world := snd (uv_tty_reset_mode uv (world s)), calls := calls s @ [Tty_reset_mode]\<rparr>
   \<and> weak (reset_times uv n s) = weak s
   \<and> guards (reset_times uv n s) = guards s
   \<and> handles (reset_times uv n s) = handles s
   \<and> calls (reset_times uv n s) = calls s @ replicate n Tty_reset_mode
   \<and> ((\<forall>w. snd (uv_tty_reset_mode uv (snd (uv_tty_reset_mode uv w))) =
             snd (uv_tty_reset_mode uv w)) \<longrightarrow>
        0 < n \<longrightarrow> world (reset_times uv n s) = world (snd (reset uv s)))"
proof -
  have "world (reset_times uv n s) = world (snd (reset uv s))"
    if "\<forall>w. snd (uv_tty_reset_mode uv (snd (uv_tty_reset_mode uv w))) =
             snd (uv_tty_reset_mode uv w)" and "0 < n"
  proof -
    from \<open>0 < n\<close> obtain k where "n = Suc k" by (cases n) auto
    with reset_times_world [OF that(1), of k s] show ?thesis by (simp add: reset_unfold)
  qed
  then show ?thesis using reset_times_frame [of uv n s] by (simp add: reset_unfold)
qed

theorem reset_idempotent_witness:
  "(\<forall>w. snd (uv_tty_reset_mode mock_uv (snd (uv_tty_reset_mode mock_uv w))) =
         snd (uv_tty_reset_mode mock_uv w))
   \<and> fst (reset mock_uv (start 1))
   \<and> world (reset_times mock_uv 3 (start 1)) = 0
   \<and> world (snd (reset mock_uv (start 1))) = 0
   \<and> calls (reset_times mock_uv 3 (start 1)) = [Tty_reset_mode, Tty_reset_mode, Tty_reset_mode]"
  using reset_idempotent [of mock_uv "start 1" 3]
  by (simp add: mock_uv_def start_def numeral_3_eq_3)

text \<open>
  Claim C7. For each of the two states \<open>SUPPORTED\<close> and \<open>UNSUPPORTED\<close>, the setter returns
  nothing but the process, in which it has made exactly one call of
  \<^verbatim>\<open>uv_tty_set_vterm_state\<close> with the libuv constant of that state; it has no way to fail.
  On a platform where that call does nothing, the setter changes nothing: the process is
  as before, but for the record of the call.
\<close>

theorem vtermState_set_effect:
  "vtermState_set uv (SUPPORTED uv) s =
     s\<lparr>world := uv_tty_set_vterm_state uv (UV_TTY_SUPPORTED uv) (world s),
       calls := calls s @ [Tty_set_vterm_state (UV_TTY_SUPPORTED uv)]\<rparr>
   \<and> vtermState_set uv (UNSUPPORTED uv) s =
     s\<lparr>world := uv_tty_set_vterm_state uv (UV_TTY_UNSUPPORTED uv) (world s),
       calls := calls s @ [Tty_set_vterm_state (UV_TTY_UNSUPPORTED uv)]\<rparr>
   \<and> ((\<forall>v w. uv_tty_set_vterm_state uv v w = w) \<longrightarrow>
        (\<forall>v \<in> {SUPPORTED uv, UNSUPPORTED uv}.
           vtermState_set uv v s = s\<lparr>calls := calls s @ [Tty_set_vterm_state v]\<rparr>))"
  by (auto simp: vtermState_set_def call_tty_set_vterm_state_def SUPPORTED_def UNSUPPORTED_def)

theorem vtermState_set_effect_witness:
  "(\<forall>v w. uv_tty_set_vterm_state mock_uv v w = w)
   \<and> SUPPORTED mock_uv \<in> {SUPPORTED mock_uv, UNSUPPORTED mock_uv}
   \<and> vtermState_set mock_uv (SUPPORTED mock_uv) (start 1) =
       \<lparr>weak = None, guards = [], handles = [], world = 1, calls = [Tty_set_vterm_state 0]\<rparr>"
  using vtermState_set_effect [of mock_uv "start 1"]
  by (simp add: mock_uv_def start_def SUPPORTED_def UNSUPPORTED_def)

text \<open>
  Claim C9. The accessor returns what the local variable \<open>state\<close> holds after the call of
  \<^verbatim>\<open>uv_tty_get_vterm_state\<close>, whatever the status of the call, which it drops. When the
  call fails and has stored nothing, that is the value \<open>state0\<close> the variable happened to
  hold before, which nothing determines. Two calls that leave the same value and the same
  driver state give the same result of the accessor though one may have failed and the
  other succeeded: its caller cannot tell them apart.
\<close>

theorem vtermState_get_ignores_status:
  "fst (vtermState_get uv state0 s) = fst (snd (uv_tty_get_vterm_state uv state0 (world s)))
   \<and> (fst (uv_tty_get_vterm_state uv state0 (world s)) \<noteq> 0 \<and>
      fst (snd (uv_tty_get_vterm_state uv state0 (world s))) = state0 \<longrightarrow>
        fst (vtermState_get uv state0 s) = state0)
   \<and> (snd (uv_tty_get_vterm_state uv state0 (world s)) =
        snd (uv_tty_get_vterm_state uv' state0' (world s)) \<longrightarrow>
        vtermState_get uv state0 s = vtermState_get uv' state0' s)"
  by (auto simp: vtermState_get_def call_tty_get_vterm_state_def split: prod.splits)

theorem vtermState_get_ignores_status_witness:
  "fst (uv_tty_get_vterm_state mock_uv 7 (world (start 0))) \<noteq> 0
   \<and> fst (snd (uv_tty_get_vterm_state mock_uv 7 (world (start 0)))) = 7
   \<and> fst (vtermState_get mock_uv 7 (start 0)) = 7
   \<and> fst (uv_tty_get_vterm_state (mock_uv\<lparr>uv_tty_get_vterm_state := (\<lambda>out w. (0, 7, w))\<rparr>) 1
           (world (start 0))) = 0
   \<and> vtermState_get mock_uv 7 (start 0) =
       vtermState_get (mock_uv\<lparr>uv_tty_get_vterm_state := (\<lambda>out w. (0, 7, w))\<rparr>) 1 (start 0)"
  using vtermState_get_ignores_status
    [of mock_uv 7 "start 0" "mock_uv\<lparr>uv_tty_get_vterm_state := (\<lambda>out w. (0, 7, w))\<rparr>" 1]
  by (simp add: mock_uv_def start_def vtermState_get_def call_tty_get_vterm_state_def)


section \<open>The invariant holds in every run\<close>

lemma live_filter_update:
  "a < length xs \<Longrightarrow> xs ! a \<noteq> None \<Longrightarrow>
   length (filter (\<lambda>h. h \<noteq> None) (xs[a := None])) + 1 = length (filter (\<lambda>h. h \<noteq> None) xs)"
proof (induction xs arbitrary: a)
  case Nil
  then show ?case by simp
next
  case (Cons x xs)
  then show ?case by (cases a) auto
qed

lemma live_filter_pos:
  "a < length xs \<Longrightarrow> xs ! a \<noteq> None \<Longrightarrow> 0 < length (filter (\<lambda>h. h \<noteq> None) xs)"
proof -
  assume "a < length xs" "xs ! a \<noteq> None"
  then have "xs ! a \<in> set (filter (\<lambda>h. h \<noteq> None) xs)" by simp
  then show ?thesis by (rule length_pos_if_in_set)
qed

lemma lookup_live_count: "lookup s a = Some h \<Longrightarrow> 0 < live_count s"
  using live_filter_pos [of a "handles s"]
  by (auto simp: lookup_def live_count_def split: if_splits)

lemma live_count_zero: "live_count s = 0 \<Longrightarrow> h \<in> set (handles s) \<Longrightarrow> h = None"
  by (auto simp: live_count_def filter_empty_conv)

lemma inv_start: "guard_inv (start w)"
  by (simp add: guard_inv_def start_def)

lemma inv_lookup:
  assumes "guard_inv s" "lookup s a = Some h"
  shows "\<exists>g. weak s = Some g \<and> memo h = Some g \<and> g < length (guards s) \<and> guards s ! g = live_count s"
proof -
  from assms(2) have "Some h \<in> set (handles s)"
    by (metis lookup_def nth_mem option.distinct(1))
  with assms(1) obtain g where g: "weak s = Some g" "memo h = Some g"
    by (fastforce simp: guard_inv_def)
  with assms(1) have "g < length (guards s)" by (simp add: guard_inv_def)
  with assms(1) g show ?thesis by (auto simp: guard_inv_def)
qed

lemma inv_weak_count:
  "guard_inv s \<Longrightarrow> weak s = Some g \<Longrightarrow> g < length (guards s) \<and> guards s ! g = live_count s"
  by (auto simp: guard_inv_def)

lemma inv_no_weak: "guard_inv s \<Longrightarrow> weak s = None \<Longrightarrow> live_count s = 0"
proof -
  assume a: "guard_inv s" "weak s = None"
  then have "\<forall>h \<in> set (handles s). h = None"
    by (auto simp: guard_inv_def split: option.splits)
  then show ?thesis by (simp add: live_count_def filter_empty_conv)
qed

text \<open>The two paths of the constructor, and which one a well-formed state takes.\<close>

lemma ctor_attach:
  assumes "weak s = Some g" "g < length (guards s)" "0 < guards s ! g"
  shows "TTYHandle_ctor desc readable s =
           (length (handles s),
            s\<lparr>guards := (guards s)[g := guards s ! g + 1],
              handles := handles s @ [Some \<lparr>memo = Some g, fd = desc, rw = (if readable then 1 else 0)\<rparr>]\<rparr>)"
  using assms
  by (simp add: TTYHandle_ctor_def resetModeMemo_def weak_lock_def make_shared_def)

lemma ctor_create:
  assumes "weak s = None \<or> (\<exists>g. weak s = Some g \<and> \<not> (g < length (guards s) \<and> 0 < guards s ! g))"
  shows "TTYHandle_ctor desc readable s =
           (length (handles s),
            s\<lparr>weak := Some (length (guards s)), guards := guards s @ [1],
              handles := handles s @ [Some \<lparr>memo = Some (length (guards s)), fd = desc,
                                         rw = (if readable then 1 else 0)\<rparr>]\<rparr>)"
  using assms
  by (auto simp: TTYHandle_ctor_def resetModeMemo_def weak_lock_def make_shared_def
           split: option.splits)

lemma ctor_live:
  assumes "guard_inv s" "0 < live_count s"
  shows "\<exists>g. weak s = Some g \<and> g < length (guards s) \<and> guards s ! g = live_count s \<and>
           TTYHandle_ctor desc readable s =
           (length (handles s),
            s\<lparr>guards := (guards s)[g := live_count s + 1],
              handles := handles s @ [Some \<lparr>memo = Some g, fd = desc, rw = (if readable then 1 else 0)\<rparr>]\<rparr>)"
proof -
  from assms inv_no_weak [of s] obtain g where g: "weak s = Some g" by (cases "weak s") auto
  with assms(1) have c: "g < length (guards s)" "guards s ! g = live_count s"
    by (simp_all add: inv_weak_count)
  with g assms(2) ctor_attach [of s g desc readable] show ?thesis by simp
qed

lemma ctor_none:
  assumes "guard_inv s" "live_count s = 0"
  shows "TTYHandle_ctor desc readable s =
           (length (handles s),
            s\<lparr>weak := Some (length (guards s)), guards := guards s @ [1],
              handles := handles s @ [Some \<lparr>memo = Some (length (guards s)), fd = desc,
                                         rw = (if readable then 1 else 0)\<rparr>]\<rparr>)"
proof (rule ctor_create)
  show "weak s = None \<or> (\<exists>g. weak s = Some g \<and> \<not> (g < length (guards s) \<and> 0 < guards s ! g))"
  proof (cases "weak s")
    case None
    then show ?thesis by simp
  next
    case (Some g)
    with assms inv_weak_count [of s g] show ?thesis by simp
  qed
qed

lemma inv_ctor:
  assumes "guard_inv s"
  shows "guard_inv (snd (TTYHandle_ctor desc readable s))"
proof (cases "live_count s = 0")
  case True
  have old: "\<forall>g < length (guards s). guards s ! g = 0"
    using assms True by (auto simp: guard_inv_def)
  have dead: "\<forall>h \<in> set (handles s). h = None"
    using True live_count_zero by blast
  show ?thesis
    using old dead True
    by (auto simp: ctor_none [OF assms True] guard_inv_def live_count_def nth_append)
next
  case False
  then have pos: "0 < live_count s" by simp
  from ctor_live [OF assms pos, of desc readable] obtain g where
    g: "weak s = Some g" "g < length (guards s)" "guards s ! g = live_count s"
    and eq: "TTYHandle_ctor desc readable s =
           (length (handles s),
            s\<lparr>guards := (guards s)[g := live_count s + 1],
              handles := handles s @ [Some \<lparr>memo = Some g, fd = desc, rw = (if readable then 1 else 0)\<rparr>]\<rparr>)"
    by blast
  show ?thesis
    using assms g
    by (auto simp: eq guard_inv_def live_count_def nth_list_update split: option.splits)
qed


lemma dtor_live:
  assumes "guard_inv s" "lookup s a = Some h"
  shows "\<exists>g. weak s = Some g \<and> g < length (guards s) \<and>
           TTYHandle_dtor uv a s =
             (if live_count s = 1
              then s\<lparr>guards := (guards s)[g := 0], handles := (handles s)[a := None],
                     world := snd (uv_tty_reset_mode uv (world s)),
                     calls := calls s @ [Tty_reset_mode]\<rparr>
              else s\<lparr>guards := (guards s)[g := live_count s - 1],
                     handles := (handles s)[a := None]\<rparr>)"
proof -
  from inv_lookup [OF assms] obtain g where
    g: "weak s = Some g" "memo h = Some g" "g < length (guards s)" "guards s ! g = live_count s"
    by blast
  from assms(2) have "0 < live_count s" by (rule lookup_live_count)
  with g assms(2) show ?thesis
    by (auto simp: TTYHandle_dtor_def shared_release_def ResetModeMemo_dtor_def
          call_tty_reset_mode_def Let_def split: prod.splits)
qed

lemma live_count_dtor:
  assumes "guard_inv s" "lookup s a = Some h"
  shows "live_count (TTYHandle_dtor uv a s) + 1 = live_count s"
proof -
  from assms(2) have "a < length (handles s)" "handles s ! a \<noteq> None"
    by (auto simp: lookup_def split: if_splits)
  then have "length (filter (\<lambda>h. h \<noteq> None) ((handles s)[a := None])) + 1 = live_count s"
    unfolding live_count_def by (rule live_filter_update)
  moreover from dtor_live [OF assms, of uv]
  have "handles (TTYHandle_dtor uv a s) = (handles s)[a := None]"
    by (auto split: if_splits)
  ultimately show ?thesis by (simp add: live_count_def)
qed

lemma lookup_dtor:
  assumes "guard_inv s" "lookup s a = Some h"
  shows "lookup (TTYHandle_dtor uv a s) b = (if b = a then None else lookup s b)"
proof -
  from dtor_live [OF assms, of uv]
  have "handles (TTYHandle_dtor uv a s) = (handles s)[a := None]"
    by (auto split: if_splits)
  then show ?thesis by (simp add: lookup_def)
qed

lemma resets_dtor:
  assumes "guard_inv s" "lookup s a = Some h"
  shows "calls (TTYHandle_dtor uv a s) =
           (if live_count s = 1 then calls s @ [Tty_reset_mode] else calls s)"
  using dtor_live [OF assms, of uv] by auto

lemma inv_dtor:
  assumes "guard_inv s" "lookup s a = Some h"
  shows "guard_inv (TTYHandle_dtor uv a s)"
proof -
  let ?s' = "TTYHandle_dtor uv a s"
  from dtor_live [OF assms, of uv] obtain g where
    g: "weak s = Some g" "g < length (guards s)"
    and w: "weak ?s' = weak s"
    and gs: "guards ?s' = (guards s)[g := live_count s - 1]"
    and hs: "handles ?s' = (handles s)[a := None]"
    by (auto split: if_splits)
  from live_count_dtor [OF assms, of uv] have lc: "live_count ?s' = live_count s - 1" by simp
  have "\<forall>h \<in> set (handles ?s').
          case h of None \<Rightarrow> True | Some x \<Rightarrow> weak ?s' \<noteq> None \<and> memo x = weak ?s'"
  proof
    fix x assume "x \<in> set (handles ?s')"
    then have "x = None \<or> x \<in> set (handles s)"
      unfolding hs using set_update_subset_insert [of "handles s" a None] by auto
    with assms(1) show "case x of None \<Rightarrow> True | Some y \<Rightarrow> weak ?s' \<noteq> None \<and> memo y = weak ?s'"
      unfolding w by (auto simp: guard_inv_def)
  qed
  moreover have "\<forall>k \<in> {0 ..< length (guards ?s')}.
          guards ?s' ! k = (if weak ?s' = Some k then live_count ?s' else 0)"
    using assms(1) g unfolding w gs lc by (auto simp: guard_inv_def nth_list_update)
  moreover have "case weak ?s' of None \<Rightarrow> True | Some k \<Rightarrow> k < length (guards ?s')"
    using g unfolding w gs by simp
  ultimately show ?thesis unfolding guard_inv_def by blast
qed

text \<open>The control operations change neither the guards nor the handles.\<close>

lemma op_frame:
  "snd (init uv a h s) = s\<lparr>world := world (snd (init uv a h s)), calls := calls s @ [Tty_init a (fd h) (rw h)]\<rparr>"
  "snd (mode uv a m s) = s\<lparr>world := world (snd (mode uv a m s)), calls := calls s @ [Tty_set_mode a m]\<rparr>"
  "snd (reset uv s) = s\<lparr>world := world (snd (reset uv s)), calls := calls s @ [Tty_reset_mode]\<rparr>"
  "snd (getWinSize uv a size0 s) =
     s\<lparr>world := world (snd (getWinSize uv a size0 s)), calls := calls s @ [Tty_get_winsize a]\<rparr>"
  "snd (vtermState_get uv state0 s) =
     s\<lparr>world := world (snd (vtermState_get uv state0 s)), calls := calls s @ [Tty_get_vterm_state]\<rparr>"
  by (auto simp: init_def initialize_def call_tty_init_def mode_def call_tty_set_mode_def
        reset_def call_tty_reset_mode_def getWinSize_def call_tty_get_winsize_def
        vtermState_get_def call_tty_get_vterm_state_def Let_def split: prod.splits)

lemma vtermState_set_frame:
  "weak (vtermState_set uv v s) = weak s \<and> guards (vtermState_set uv v s) = guards s \<and>
   handles (vtermState_set uv v s) = handles s"
  by (simp add: vtermState_set_def call_tty_set_vterm_state_def)

lemma step_frame:
  assumes "step uv e s = Some s'" "\<forall>d r. e \<noteq> Construct d r" "\<forall>b. e \<noteq> Destroy b"
  shows "weak s' = weak s \<and> guards s' = guards s \<and> handles s' = handles s"
proof (cases e)
  case (Construct d r)
  with assms(2) show ?thesis by blast
next
  case (Destroy b)
  with assms(3) show ?thesis by blast
next
  case (Init a)
  with assms(1) obtain h where "s' = snd (init uv a h s)"
    by (auto simp: on_handle_def split: option.splits)
  then show ?thesis using op_frame(1) [of uv a h s] by (metis process.select_convs(1,2,3) process.surjective process.update_convs(4,5))
next
  case (SetMode a m)
  with assms(1) have "s' = snd (mode uv a m s)"
    by (auto simp: on_handle_def split: option.splits)
  then show ?thesis using op_frame(2) [of uv a m s] by (metis process.select_convs(1,2,3) process.surjective process.update_convs(4,5))
next
  case (Reset a)
  with assms(1) have "s' = snd (reset uv s)"
    by (auto simp: on_handle_def split: option.splits)
  then show ?thesis using op_frame(3) [of uv s] by (metis process.select_convs(1,2,3) process.surjective process.update_convs(4,5))
next
  case (GetWinSize a size0)
  with assms(1) have "s' = snd (getWinSize uv a size0 s)"
    by (auto simp: on_handle_def split: option.splits)
  then show ?thesis using op_frame(4) [of uv a size0 s] by (metis process.select_convs(1,2,3) process.surjective process.update_convs(4,5))
next
  case (SetVTermState a v)
  with assms(1) have "s' = vtermState_set uv v s"
    by (auto simp: on_handle_def split: option.splits)
  then show ?thesis by (simp add: vtermState_set_frame)
next
  case (GetVTermState a state0)
  with assms(1) have "s' = snd (vtermState_get uv state0 s)"
    by (auto simp: on_handle_def split: option.splits)
  then show ?thesis using op_frame(5) [of uv state0 s] by (metis process.select_convs(1,2,3) process.surjective process.update_convs(4,5))
qed

lemma inv_frame:
  assumes "weak s' = weak s" "guards s' = guards s" "handles s' = handles s"
  shows "guard_inv s' = guard_inv s"
  unfolding guard_inv_def live_count_def assms by (rule refl)

lemma inv_step:
  assumes "guard_inv s" "step uv e s = Some s'"
  shows "guard_inv s'"
proof (cases "(\<exists>d r. e = Construct d r) \<or> (\<exists>b. e = Destroy b)")
  case True
  then show ?thesis
  proof (elim disjE exE)
    fix d r assume "e = Construct d r"
    with assms(2) have "s' = snd (TTYHandle_ctor d r s)" by simp
    with assms(1) show ?thesis by (simp add: inv_ctor)
  next
    fix b assume "e = Destroy b"
    with assms(2) obtain h where "lookup s b = Some h" "s' = TTYHandle_dtor uv b s"
      by (auto simp: on_handle_def split: option.splits)
    with assms(1) show ?thesis by (simp add: inv_dtor)
  qed
next
  case False
  then have "\<forall>d r. e \<noteq> Construct d r" "\<forall>b. e \<noteq> Destroy b" by blast+
  with assms(2) have "weak s' = weak s \<and> guards s' = guards s \<and> handles s' = handles s"
    by (rule step_frame)
  with assms(1) inv_frame [of s' s] show ?thesis by blast
qed

lemma inv_run: "guard_inv s \<Longrightarrow> run uv evs s = Some s' \<Longrightarrow> guard_inv s'"
proof (induction evs arbitrary: s)
  case Nil
  then show ?case by simp
next
  case (Cons e evs)
  from Cons.prems(2) obtain t where t: "step uv e s = Some t" "run uv evs t = Some s'"
    by (auto split: option.splits)
  from Cons.prems(1) t(1) have "guard_inv t" by (rule inv_step)
  then show ?case using t(2) by (rule Cons.IH)
qed

lemma run_append:
  "run uv (xs @ ys) s = (case run uv xs s of None \<Rightarrow> None | Some t \<Rightarrow> run uv ys t)"
  by (induction xs arbitrary: s) (auto split: option.splits)

text \<open>A handle keeps its members until it is destroyed.\<close>

lemma ctor_handles:
  "\<exists>m. TTYHandle_ctor desc readable s =
         (length (handles s),
          (snd (TTYHandle_ctor desc readable s))) \<and>
       handles (snd (TTYHandle_ctor desc readable s)) =
         handles s @ [Some \<lparr>memo = m, fd = desc, rw = (if readable then 1 else 0)\<rparr>]"
  by (auto simp: TTYHandle_ctor_def resetModeMemo_def weak_lock_def make_shared_def Let_def
        split: option.splits prod.splits)

lemma release_handles: "handles (shared_release uv p s) = handles s"
  by (auto simp: shared_release_def ResetModeMemo_dtor_def call_tty_reset_mode_def Let_def
        split: option.splits prod.splits)

lemma dtor_handles:
  "handles (TTYHandle_dtor uv b s) = (if lookup s b = None then handles s else (handles s)[b := None])"
  by (auto simp: TTYHandle_dtor_def release_handles split: option.splits)

lemma lookup_step:
  assumes "step uv e s = Some s'" "e \<noteq> Destroy a" "lookup s a = Some h"
  shows "lookup s' a = Some h"
proof (cases "(\<exists>d r. e = Construct d r) \<or> (\<exists>b. e = Destroy b)")
  case True
  then show ?thesis
  proof (elim disjE exE)
    fix d r assume e: "e = Construct d r"
    from ctor_handles [of d r s] obtain m where
      "handles (snd (TTYHandle_ctor d r s)) =
         handles s @ [Some \<lparr>memo = m, fd = d, rw = (if r then 1 else 0)\<rparr>]"
      by blast
    with assms e show ?thesis by (auto simp: lookup_def nth_append split: if_splits)
  next
    fix b assume e: "e = Destroy b"
    with assms(2) have "b \<noteq> a" by simp
    moreover from assms(1) e have "s' = TTYHandle_dtor uv b s"
      by (auto simp: on_handle_def split: option.splits)
    ultimately show ?thesis using assms(3)
      by (auto simp: lookup_def dtor_handles split: if_splits)
  qed
next
  case False
  then have "\<forall>d r. e \<noteq> Construct d r" "\<forall>b. e \<noteq> Destroy b" by blast+
  with assms(1) have "handles s' = handles s"
    using step_frame [of uv e s s'] by blast
  with assms(3) show ?thesis by (simp add: lookup_def split: if_splits)
qed

lemma lookup_run:
  "run uv evs s = Some s' \<Longrightarrow> Destroy a \<notin> set evs \<Longrightarrow> lookup s a = Some h \<Longrightarrow> lookup s' a = Some h"
proof (induction evs arbitrary: s)
  case Nil
  then show ?case by simp
next
  case (Cons e evs)
  from Cons.prems(1) obtain t where t: "step uv e s = Some t" "run uv evs t = Some s'"
    by (auto split: option.splits)
  from Cons.prems(2) have "e \<noteq> Destroy a" "Destroy a \<notin> set evs" by auto
  with t Cons.prems(3) Cons.IH [of t] lookup_step [of uv e s t a h] show ?case by blast
qed

text \<open>The guards that are alive in a state that satisfies the invariant.\<close>

lemma filter_upt_eq: "g < n \<Longrightarrow> filter (\<lambda>k. k = g) [0 ..< n] = [g]"
proof (induction n)
  case 0
  then show ?case by simp
next
  case (Suc n)
  show ?case
  proof (cases "g = n")
    case True
    have "filter (\<lambda>k. k = n) [0 ..< n] = []" by (auto simp: filter_empty_conv)
    with True show ?thesis by simp
  next
    case False
    with Suc show ?thesis by simp
  qed
qed

lemma inv_live_guards:
  assumes "guard_inv s"
  shows "live_guards s = (if live_count s = 0 then [] else [the (weak s)])"
proof (cases "live_count s = 0")
  case True
  with assms have "\<forall>g \<in> set [0 ..< length (guards s)]. \<not> 0 < guards s ! g"
    by (auto simp: guard_inv_def)
  then have "live_guards s = []" unfolding live_guards_def by (simp add: filter_empty_conv)
  with True show ?thesis by simp
next
  case False
  with assms inv_no_weak [of s] obtain g where g: "weak s = Some g" by (cases "weak s") auto
  with assms have lt: "g < length (guards s)" by (simp add: inv_weak_count)
  have "filter (\<lambda>k. 0 < guards s ! k) [0 ..< length (guards s)] =
        filter (\<lambda>k. k = g) [0 ..< length (guards s)]"
    using assms g False by (intro filter_cong) (auto simp: guard_inv_def)
  with lt g False show ?thesis by (simp add: live_guards_def filter_upt_eq)
qed

lemma inv_guard_state:
  assumes "guard_inv s"
  shows "guard_state_of s = (if live_count s = 0 then NoInstance else Live (live_count s))"
proof (cases "live_count s = 0")
  case True
  with assms show ?thesis by (simp add: guard_state_of_def inv_live_guards)
next
  case False
  with assms inv_no_weak [of s] obtain g where g: "weak s = Some g" by (cases "weak s") auto
  with assms False show ?thesis
    by (simp add: guard_state_of_def inv_live_guards inv_weak_count)
qed

lemma ctor_calls:
  "calls (snd (TTYHandle_ctor desc readable s)) = calls s \<and>
   world (snd (TTYHandle_ctor desc readable s)) = world s"
  by (auto simp: TTYHandle_ctor_def resetModeMemo_def weak_lock_def make_shared_def Let_def
        split: option.splits prod.splits)

lemma ctor_live_count:
  "live_count (snd (TTYHandle_ctor desc readable s)) = live_count s + 1"
  using ctor_handles [of desc readable s] by (auto simp: live_count_def)

lemma ctor_lookup_new:
  "lookup (snd (TTYHandle_ctor desc readable s)) (length (handles s)) \<noteq> None"
  using ctor_handles [of desc readable s] by (auto simp: lookup_def)

lemma ctor_length:
  "length (handles (snd (TTYHandle_ctor desc readable s))) = length (handles s) + 1"
  using ctor_handles [of desc readable s] by auto

lemma run_ctors:
  assumes "guard_inv s"
  shows "\<exists>s1. run uv (map (\<lambda>(d, r). Construct d r) specs) s = Some s1 \<and> guard_inv s1 \<and>
           live_count s1 = live_count s + length specs \<and>
           calls s1 = calls s \<and> world s1 = world s \<and>
           length (handles s1) = length (handles s) + length specs \<and>
           (\<forall>i < length specs. lookup s1 (length (handles s) + i) \<noteq> None)"
  using assms
proof (induction specs arbitrary: s)
  case Nil
  then show ?case by simp
next
  case (Cons p specs)
  obtain d r where p: "p = (d, r)" by (cases p)
  let ?t = "snd (TTYHandle_ctor d r s)"
  have wt: "guard_inv ?t" using Cons.prems by (rule inv_ctor)
  from Cons.IH [OF wt] obtain s1 where
    r: "run uv (map (\<lambda>(d, r). Construct d r) specs) ?t = Some s1" and w: "guard_inv s1"
    and lc: "live_count s1 = live_count ?t + length specs"
    and cs: "calls s1 = calls ?t" "world s1 = world ?t"
    and len: "length (handles s1) = length (handles ?t) + length specs"
    and lk: "\<forall>i < length specs. lookup s1 (length (handles ?t) + i) \<noteq> None"
    by blast
  have nd: "Destroy (length (handles s)) \<notin> set (map (\<lambda>(d, r). Construct d r) specs)"
    by auto
  from ctor_lookup_new [of d r s] obtain h where "lookup ?t (length (handles s)) = Some h"
    by auto
  with r nd have first: "lookup s1 (length (handles s)) = Some h" by (rule lookup_run)
  have "\<forall>i < length (p # specs). lookup s1 (length (handles s) + i) \<noteq> None"
  proof (intro allI impI)
    fix i assume i: "i < length (p # specs)"
    show "lookup s1 (length (handles s) + i) \<noteq> None"
    proof (cases i)
      case 0
      with first show ?thesis by simp
    next
      case (Suc j)
      with i lk show ?thesis by (simp add: ctor_length)
    qed
  qed
  with r w lc cs len p show ?case
    by (simp add: ctor_live_count ctor_calls ctor_length)
qed

lemma run_dtors:
  assumes "guard_inv s" "distinct as" "\<forall>a \<in> set as. lookup s a \<noteq> None"
  shows "\<exists>s2. run uv (map Destroy as) s = Some s2 \<and> guard_inv s2 \<and>
           live_count s2 + length as = live_count s \<and>
           calls s2 = (if as \<noteq> [] \<and> live_count s2 = 0 then calls s @ [Tty_reset_mode] else calls s)"
  using assms
proof (induction as arbitrary: s)
  case Nil
  then show ?case by simp
next
  case (Cons a as)
  from Cons.prems(3) obtain h where h: "lookup s a = Some h" by auto
  let ?t = "TTYHandle_dtor uv a s"
  have st: "step uv (Destroy a) s = Some ?t" using h by (simp add: on_handle_def)
  have wt: "guard_inv ?t" using Cons.prems(1) h by (rule inv_dtor)
  have lt: "live_count ?t + 1 = live_count s" using Cons.prems(1) h by (rule live_count_dtor)
  have ct: "calls ?t = (if live_count s = 1 then calls s @ [Tty_reset_mode] else calls s)"
    using Cons.prems(1) h by (rule resets_dtor)
  have "\<forall>b \<in> set as. lookup ?t b \<noteq> None"
    using Cons.prems(2,3) by (auto simp: lookup_dtor [OF Cons.prems(1) h])
  with Cons.IH [OF wt] Cons.prems(2) obtain s2 where
    r: "run uv (map Destroy as) ?t = Some s2" and w: "guard_inv s2"
    and lc: "live_count s2 + length as = live_count ?t"
    and cs: "calls s2 = (if as \<noteq> [] \<and> live_count s2 = 0 then calls ?t @ [Tty_reset_mode] else calls ?t)"
    by auto
  have "calls s2 = (if live_count s2 = 0 then calls s @ [Tty_reset_mode] else calls s)"
  proof (cases "as = []")
    case True
    with r have "s2 = ?t" by simp
    with ct lt show ?thesis by auto
  next
    case False
    then have "0 < length as" by simp
    with lc lt have "live_count s \<noteq> 1" by linarith
    with ct cs False lc show ?thesis by auto
  qed
  with st r w lc lt show ?case by simp
qed


lemma inv_reachable: "run uv evs (start w) = Some s \<Longrightarrow> guard_inv s"
  using inv_start by (rule inv_run)

lemma perm_length:
  assumes "distinct order" "set order = {0 ..< n}"
  shows "length order = n"
proof -
  from assms(1) have "length order = card (set order)" by (simp add: distinct_card)
  with assms(2) show ?thesis by simp
qed

lemma lifecycle_once:
  assumes "guard_inv s" "live_count s = 0" "specs \<noteq> []" "distinct order" "set order = {0 ..< length specs}"
  shows "\<exists>s1 s2. run uv (map (\<lambda>(desc, readable). Construct desc readable) specs) s = Some s1 \<and>
           guard_state_of s1 = Live (length specs) \<and> calls s1 = calls s \<and>
           run uv (map (\<lambda>i. Destroy (length (handles s) + i)) order) s1 = Some s2 \<and>
           guard_state_of s2 = NoInstance \<and> calls s2 = calls s @ [Tty_reset_mode] \<and>
           lifecycle uv specs order s = Some s2 \<and> guard_inv s2 \<and> live_count s2 = 0"
proof -
  from run_ctors [OF assms(1), of uv specs] obtain s1 where
    r1: "run uv (map (\<lambda>(d, r). Construct d r) specs) s = Some s1" and w1: "guard_inv s1"
    and lc1: "live_count s1 = live_count s + length specs" and cs1: "calls s1 = calls s"
    and lk: "\<forall>i < length specs. lookup s1 (length (handles s) + i) \<noteq> None"
    by blast
  let ?as = "map (\<lambda>i. length (handles s) + i) order"
  have d: "distinct ?as" using assms(4) by (simp add: distinct_map inj_on_def)
  have l: "\<forall>a \<in> set ?as. lookup s1 a \<noteq> None"
  proof
    fix a assume "a \<in> set ?as"
    then obtain i where "i \<in> set order" "a = length (handles s) + i" by auto
    with assms(5) lk show "lookup s1 a \<noteq> None" by simp
  qed
  have n: "length order = length specs" using assms(4,5) by (rule perm_length)
  from run_dtors [OF w1 d l, of uv] obtain s2 where
    r2: "run uv (map Destroy ?as) s1 = Some s2" and w2: "guard_inv s2"
    and lc2: "live_count s2 + length ?as = live_count s1"
    and cs2: "calls s2 = (if ?as \<noteq> [] \<and> live_count s2 = 0 then calls s1 @ [Tty_reset_mode] else calls s1)"
    by blast
  have m: "map Destroy ?as = map (\<lambda>i. Destroy (length (handles s) + i)) order" by simp
  from lc1 lc2 n assms(2) have z: "live_count s2 = 0" by simp
  from assms(3) n have ne: "?as \<noteq> []" by auto
  have g1: "guard_state_of s1 = Live (length specs)"
    using w1 lc1 assms(2,3) by (simp add: inv_guard_state)
  have g2: "guard_state_of s2 = NoInstance" using w2 z by (simp add: inv_guard_state)
  have c2: "calls s2 = calls s @ [Tty_reset_mode]" using cs2 ne z cs1 by simp
  have "lifecycle uv specs order s = Some s2"
    using r1 r2 unfolding lifecycle_def run_append m by simp
  with r1 r2 g1 g2 c2 cs1 w2 z show ?thesis unfolding m by blast
qed

lemma lifecycles_count:
  assumes "guard_inv s" "live_count s = 0"
    and "\<forall>(specs, order) \<in> set ls. specs \<noteq> [] \<and> distinct order \<and> set order = {0 ..< length specs}"
  shows "\<exists>s'. lifecycles uv ls s = Some s' \<and> guard_inv s' \<and> live_count s' = 0 \<and>
           resets s' = resets s + length ls"
  using assms
proof (induction ls arbitrary: s)
  case Nil
  then show ?case by simp
next
  case (Cons l ls)
  obtain specs order where l: "l = (specs, order)" by (cases l)
  with Cons.prems(3) have ok: "specs \<noteq> []" "distinct order" "set order = {0 ..< length specs}"
    by auto
  from lifecycle_once [OF Cons.prems(1,2) ok, of uv] obtain s2 where
    s2: "lifecycle uv specs order s = Some s2" "guard_inv s2" "live_count s2 = 0"
        "calls s2 = calls s @ [Tty_reset_mode]"
    by blast
  from Cons.prems(3) have
    "\<forall>(specs, order) \<in> set ls. specs \<noteq> [] \<and> distinct order \<and> set order = {0 ..< length specs}"
    by simp
  from Cons.IH [OF s2(2,3) this] obtain s' where
    "lifecycles uv ls s2 = Some s'" "guard_inv s'" "live_count s' = 0" "resets s' = resets s2 + length ls"
    by blast
  with s2 l show ?case by (simp add: resets_def)
qed

lemma init_unfold:
  "init uv this h s =
     (fst (uv_tty_init uv this (fd h) (rw h) (world s)) = 0,
      s\<lparr>world := snd (uv_tty_init uv this (fd h) (rw h) (world s)),
        calls := calls s @ [Tty_init this (fd h) (rw h)]\<rparr>)"
  by (auto simp: init_def initialize_def call_tty_init_def split: prod.splits)

lemma ctor_new_handle:
  assumes "TTYHandle_ctor desc readable s = (this, s1)"
  shows "\<exists>h. lookup s1 this = Some h \<and> fd h = desc \<and> rw h = (if readable then 1 else 0)"
proof -
  from ctor_handles [of desc readable s] assms obtain m where
    "this = length (handles s)"
    "handles s1 = handles s @ [Some \<lparr>memo = m, fd = desc, rw = (if readable then 1 else 0)\<rparr>]"
    by auto
  then show ?thesis by (simp add: lookup_def)
qed

lemmas eval_defs =
  start_def lookup_def on_handle_def TTYHandle_ctor_def TTYHandle_dtor_def resetModeMemo_def
  weak_lock_def make_shared_def shared_release_def ResetModeMemo_dtor_def call_tty_reset_mode_def
  init_def initialize_def call_tty_init_def mode_def call_tty_set_mode_def
  live_count_def live_guards_def guard_state_of_def resets_def lifecycle_def
  mock_uv_def notty_uv_def


section \<open>The guard and the lifetime of handles\<close>

text \<open>
  The two parts of \<^verbatim>\<open>resetModeMemo\<close> and the initialisation of the members, one after the
  other, are the constructor.
\<close>

lemma resetModeMemo_parts:
  "resetModeMemo s = (let (shared, s1) = resetModeMemo_lock s in resetModeMemo_make shared s1)"
  by (simp add: resetModeMemo_def resetModeMemo_lock_def resetModeMemo_make_def)

lemma TTYHandle_ctor_parts:
  "TTYHandle_ctor desc readable s =
     (let (shared, s1) = resetModeMemo_lock s;
          (m, s2) = resetModeMemo_make shared s1
      in TTYHandle_members m desc readable s2)"
  by (simp add: TTYHandle_ctor_def TTYHandle_members_def resetModeMemo_parts Let_def
        split: prod.splits)

text \<open>
  Claim C2, for constructions and destructions that do not overlap. In every state that
  the process reaches from its start by a run in which each construction, each destruction
  and each call of a member function is completed before the next one begins, at most one
  guard is alive. When no handle exists, none is; when at least one handle exists, exactly
  one guard is alive, it is the one the static weak pointer observes, its use count is the
  number of handles that exist, and the \<open>memo\<close> of every existing handle points to it.
\<close>

theorem single_guard:
  assumes "run uv evs (start w) = Some s"
  shows "length (live_guards s) \<le> 1
         \<and> (live_count s = 0 \<longrightarrow> live_guards s = [])
         \<and> (0 < live_count s \<longrightarrow>
              (\<exists>g. live_guards s = [g] \<and> weak s = Some g \<and> guards s ! g = live_count s \<and>
                   (\<forall>a h. lookup s a = Some h \<longrightarrow> memo h = Some g)))"
proof -
  from assms have w: "guard_inv s" by (rule inv_reachable)
  have "\<exists>g. live_guards s = [g] \<and> weak s = Some g \<and> guards s ! g = live_count s \<and>
             (\<forall>a h. lookup s a = Some h \<longrightarrow> memo h = Some g)"
    if pos: "0 < live_count s"
  proof -
    from w pos inv_no_weak [of s] obtain g where g: "weak s = Some g" by (cases "weak s") auto
    have "\<forall>a h. lookup s a = Some h \<longrightarrow> memo h = Some g"
      using inv_lookup [OF w] g by fastforce
    with w g pos show ?thesis by (simp add: inv_live_guards inv_weak_count)
  qed
  with w show ?thesis by (simp add: inv_live_guards)
qed

theorem single_guard_witness:
  "run mock_uv [Construct 0 True, Construct 1 False, Init 0, Destroy 0] (start 0) =
     Some \<lparr>weak = Some 0, guards = [1],
           handles = [None, Some \<lparr>memo = Some 0, fd = 1, rw = 0\<rparr>], world = 0,
           calls = [Tty_init 0 0 1]\<rparr>
   \<and> live_count \<lparr>weak = Some 0, guards = [1],
           handles = [None, Some \<lparr>memo = Some 0, fd = 1, rw = 0\<rparr>], world = 0::int,
           calls = [Tty_init 0 0 1]\<rparr> = 1
   \<and> live_guards \<lparr>weak = Some 0, guards = [1],
           handles = [None, Some \<lparr>memo = Some 0, fd = 1, rw = 0\<rparr>], world = 0::int,
           calls = [Tty_init 0 0 1]\<rparr> = [0]"
proof -
  have r: "run mock_uv [Construct 0 True, Construct 1 False, Init 0, Destroy 0] (start 0) =
     Some \<lparr>weak = Some 0, guards = [1],
           handles = [None, Some \<lparr>memo = Some 0, fd = 1, rw = 0\<rparr>], world = 0,
           calls = [Tty_init 0 0 1]\<rparr>"
    by (simp add: eval_defs)
  from single_guard [OF r] r show ?thesis by (simp add: live_count_def)
qed

text \<open>
  Without that restriction the claim fails. When two constructions overlap at the start of
  the process, both find the weak pointer empty and both make a guard: two guards are
  alive at once, each owned by one of the two handles, and the weak pointer observes only
  the second.
\<close>

theorem single_guard_counterexample:
  "overlapped_ctors 0 True 1 False (start (0::int)) =
     \<lparr>weak = Some 1, guards = [1, 1],
      handles = [Some \<lparr>memo = Some 0, fd = 0, rw = 1\<rparr>, Some \<lparr>memo = Some 1, fd = 1, rw = 0\<rparr>],
      world = 0, calls = []\<rparr>
   \<and> live_count (overlapped_ctors 0 True 1 False (start (0::int))) = 2
   \<and> live_guards (overlapped_ctors 0 True 1 False (start (0::int))) = [0, 1]
   \<and> \<not> length (live_guards (overlapped_ctors 0 True 1 False (start (0::int)))) \<le> 1
   \<and> lookup (overlapped_ctors 0 True 1 False (start (0::int))) 0 =
       Some \<lparr>memo = Some 0, fd = 0, rw = 1\<rparr>
   \<and> lookup (overlapped_ctors 0 True 1 False (start (0::int))) 1 =
       Some \<lparr>memo = Some 1, fd = 1, rw = 0\<rparr>"
proof -
  have e: "overlapped_ctors 0 True 1 False (start (0::int)) =
     \<lparr>weak = Some 1, guards = [1, 1],
      handles = [Some \<lparr>memo = Some 0, fd = 0, rw = 1\<rparr>, Some \<lparr>memo = Some 1, fd = 1, rw = 0\<rparr>],
      world = 0, calls = []\<rparr>"
    by (simp add: overlapped_ctors_def resetModeMemo_lock_def resetModeMemo_make_def
          TTYHandle_members_def weak_lock_def make_shared_def start_def)
  have g: "[0 ..< 2] = [0, Suc 0]" by (simp add: upt_rec)
  show ?thesis
    unfolding e by (simp add: live_count_def live_guards_def lookup_def g)
qed

text \<open>
  Claim C10. The constructor alone, which makes no call into the driver, makes the new
  handle an owner of the one live guard, counted in its use count; \<open>init\<close> changes neither
  the guards nor the handles, whatever it returns. The handle stays an owner through every
  run in which it is not destroyed, whether \<open>init\<close> is called or not and whether it
  succeeds or fails, and when it is destroyed as the last handle, the reset is called and
  no guard is left.
\<close>

theorem holder_from_construction:
  assumes "run uv pre (start w) = Some s"
      and "TTYHandle_ctor desc readable s = (this, s1)"
  shows "calls s1 = calls s
         \<and> (\<exists>h g. lookup s1 this = Some h \<and> memo h = Some g \<and> live_guards s1 = [g] \<and>
                  guards s1 ! g = live_count s + 1 \<and>
                  guards (snd (init uv this h s1)) = guards s1 \<and>
                  handles (snd (init uv this h s1)) = handles s1)
         \<and> (\<forall>evs s2. run uv evs s1 = Some s2 \<and> Destroy this \<notin> set evs \<longrightarrow>
               (\<exists>h g. lookup s2 this = Some h \<and> memo h = Some g \<and> live_guards s2 = [g] \<and>
                      guards s2 ! g = live_count s2))
         \<and> (\<forall>evs s2. run uv evs s1 = Some s2 \<and> lookup s2 this \<noteq> None \<and> live_count s2 = 1 \<longrightarrow>
               calls (TTYHandle_dtor uv this s2) = calls s2 @ [Tty_reset_mode] \<and>
               guard_state_of (TTYHandle_dtor uv this s2) = NoInstance)"
proof -
  from assms(1) have w: "guard_inv s" by (rule inv_reachable)
  from assms(2) have s1: "s1 = snd (TTYHandle_ctor desc readable s)" by simp
  with w have w1: "guard_inv s1" by (simp add: inv_ctor)
  have c: "calls s1 = calls s" unfolding s1 by (simp add: ctor_calls)
  have lc1: "live_count s1 = live_count s + 1" unfolding s1 by (rule ctor_live_count)
  from ctor_new_handle [OF assms(2)] obtain h where h: "lookup s1 this = Some h" by blast
  have holder: "\<exists>h g. lookup t this = Some h \<and> memo h = Some g \<and> live_guards t = [g] \<and>
                  guards t ! g = live_count t"
    if "guard_inv t" "lookup t this = Some h" for t
  proof -
    from inv_lookup [OF that] obtain g where
      g: "weak t = Some g" "memo h = Some g" "guards t ! g = live_count t"
      by blast
    from that(2) have "0 < live_count t" by (rule lookup_live_count)
    with that g show ?thesis by (simp add: inv_live_guards)
  qed
  from holder [OF w1 h] obtain h' g where
    "lookup s1 this = Some h'" "memo h' = Some g" "live_guards s1 = [g]"
    "guards s1 ! g = live_count s1"
    by blast
  then have first: "\<exists>h g. lookup s1 this = Some h \<and> memo h = Some g \<and> live_guards s1 = [g] \<and>
                  guards s1 ! g = live_count s + 1 \<and>
                  guards (snd (init uv this h s1)) = guards s1 \<and>
                  handles (snd (init uv this h s1)) = handles s1"
    using lc1 by (auto simp: init_unfold)
  have life: "\<exists>h g. lookup s2 this = Some h \<and> memo h = Some g \<and> live_guards s2 = [g] \<and>
                      guards s2 ! g = live_count s2"
    if "run uv evs s1 = Some s2" "Destroy this \<notin> set evs" for evs s2
  proof -
    from w1 that(1) have "guard_inv s2" by (rule inv_run)
    moreover from that h have "lookup s2 this = Some h" by (rule lookup_run)
    ultimately show ?thesis by (rule holder)
  qed
  have last: "calls (TTYHandle_dtor uv this s2) = calls s2 @ [Tty_reset_mode] \<and>
               guard_state_of (TTYHandle_dtor uv this s2) = NoInstance"
    if "run uv evs s1 = Some s2" "lookup s2 this \<noteq> None" "live_count s2 = 1" for evs s2
  proof -
    from w1 that(1) have w2: "guard_inv s2" by (rule inv_run)
    from that(2) obtain k where k: "lookup s2 this = Some k" by auto
    from resets_dtor [OF w2 k, of uv] that(3)
    have "calls (TTYHandle_dtor uv this s2) = calls s2 @ [Tty_reset_mode]" by simp
    moreover from live_count_dtor [OF w2 k, of uv] that(3)
    have "live_count (TTYHandle_dtor uv this s2) = 0" by simp
    moreover from w2 k have "guard_inv (TTYHandle_dtor uv this s2)" by (rule inv_dtor)
    ultimately show ?thesis by (simp add: inv_guard_state)
  qed
  from c first life last show ?thesis by blast
qed

theorem holder_from_construction_witness:
  "run notty_uv [] (start 0) = Some (start 0)
   \<and> TTYHandle_ctor 5 True (start (0::int)) =
       (0, \<lparr>weak = Some 0, guards = [1], handles = [Some \<lparr>memo = Some 0, fd = 5, rw = 1\<rparr>],
            world = 0, calls = []\<rparr>)
   \<and> \<not> fst (init notty_uv 0 \<lparr>memo = Some 0, fd = 5, rw = 1\<rparr>
              \<lparr>weak = Some 0, guards = [1], handles = [Some \<lparr>memo = Some 0, fd = 5, rw = 1\<rparr>],
               world = 0, calls = []\<rparr>)
   \<and> run notty_uv [Init 0]
        \<lparr>weak = Some 0, guards = [1], handles = [Some \<lparr>memo = Some 0, fd = 5, rw = 1\<rparr>],
         world = 0, calls = []\<rparr> =
       Some \<lparr>weak = Some 0, guards = [1], handles = [Some \<lparr>memo = Some 0, fd = 5, rw = 1\<rparr>],
             world = 0, calls = [Tty_init 0 5 1]\<rparr>
   \<and> calls (TTYHandle_dtor notty_uv 0
        \<lparr>weak = Some 0, guards = [1], handles = [Some \<lparr>memo = Some 0, fd = 5, rw = 1\<rparr>],
         world = 0, calls = [Tty_init 0 5 1]\<rparr>) = [Tty_init 0 5 1, Tty_reset_mode]
   \<and> guard_state_of (TTYHandle_dtor notty_uv 0
        \<lparr>weak = Some 0, guards = [1], handles = [Some \<lparr>memo = Some 0, fd = 5, rw = 1\<rparr>],
         world = 0, calls = [Tty_init 0 5 1]\<rparr>) = NoInstance"
proof -
  let ?s1 = "\<lparr>weak = Some 0, guards = [1], handles = [Some \<lparr>memo = Some 0, fd = 5, rw = 1\<rparr>],
              world = 0::int, calls = []\<rparr>"
  let ?s2 = "\<lparr>weak = Some 0, guards = [1], handles = [Some \<lparr>memo = Some 0, fd = 5, rw = 1\<rparr>],
              world = 0::int, calls = [Tty_init 0 5 1]\<rparr>"
  have h1: "run notty_uv [] (start 0) = Some (start 0)" by simp
  have h2: "TTYHandle_ctor 5 True (start (0::int)) = (0, ?s1)" by (simp add: eval_defs)
  have f: "\<not> fst (init notty_uv 0 \<lparr>memo = Some 0, fd = 5, rw = 1\<rparr> ?s1)"
    by (simp add: eval_defs)
  have r: "run notty_uv [Init 0] ?s1 = Some ?s2" by (simp add: eval_defs)
  have l: "lookup ?s2 0 \<noteq> None" "live_count ?s2 = 1" by (simp_all add: eval_defs)
  from holder_from_construction [OF h1 h2] r l
  have "calls (TTYHandle_dtor notty_uv 0 ?s2) = calls ?s2 @ [Tty_reset_mode] \<and>
        guard_state_of (TTYHandle_dtor notty_uv 0 ?s2) = NoInstance"
    by blast
  with h1 h2 f r show ?thesis by simp
qed

text \<open>
  Claim C1. From a reachable state without a live guard, constructing any positive number
  \<open>N\<close> of handles leads to \<open>Live N\<close> without any call into the driver, and destroying them in
  any order leads back to \<open>NoInstance\<close> with exactly one call of \<^verbatim>\<open>uv_tty_reset_mode\<close>,
  and no other call, made on the way. Any number of such lifecycles one after the other
  makes exactly that number of resets: two lifecycles, two resets.
\<close>

theorem reset_once_per_lifecycle:
  assumes "run uv pre (start w) = Some s"
      and "guard_state_of s = NoInstance"
      and "\<forall>(specs, order) \<in> set ls. specs \<noteq> [] \<and> distinct order \<and> set order = {0 ..< length specs}"
  shows "(\<exists>s'. lifecycles uv ls s = Some s' \<and> guard_state_of s' = NoInstance \<and>
               resets s' = resets s + length ls)
         \<and> (\<forall>(specs, order) \<in> set ls.
              \<exists>s1 s2. run uv (map (\<lambda>(desc, readable). Construct desc readable) specs) s = Some s1 \<and>
                guard_state_of s1 = Live (length specs) \<and> calls s1 = calls s \<and>
                run uv (map (\<lambda>i. Destroy (length (handles s) + i)) order) s1 = Some s2 \<and>
                guard_state_of s2 = NoInstance \<and> calls s2 = calls s @ [Tty_reset_mode])"
proof -
  from assms(1) have w: "guard_inv s" by (rule inv_reachable)
  with assms(2) have z: "live_count s = 0"
    by (auto simp: inv_guard_state split: if_splits)
  from lifecycles_count [OF w z assms(3), of uv] obtain s' where
    "lifecycles uv ls s = Some s'" "guard_inv s'" "live_count s' = 0" "resets s' = resets s + length ls"
    by blast
  then have "\<exists>s'. lifecycles uv ls s = Some s' \<and> guard_state_of s' = NoInstance \<and>
               resets s' = resets s + length ls"
    by (auto simp: inv_guard_state)
  moreover have "\<forall>(specs, order) \<in> set ls.
              \<exists>s1 s2. run uv (map (\<lambda>(desc, readable). Construct desc readable) specs) s = Some s1 \<and>
                guard_state_of s1 = Live (length specs) \<and> calls s1 = calls s \<and>
                run uv (map (\<lambda>i. Destroy (length (handles s) + i)) order) s1 = Some s2 \<and>
                guard_state_of s2 = NoInstance \<and> calls s2 = calls s @ [Tty_reset_mode]"
  proof (intro ballI, clarify)
    fix specs order assume "(specs, order) \<in> set ls"
    with assms(3) have ok: "specs \<noteq> []" "distinct order" "set order = {0 ..< length specs}"
      by auto
    from lifecycle_once [OF w z ok, of uv]
    show "\<exists>s1 s2. run uv (map (\<lambda>(desc, readable). Construct desc readable) specs) s = Some s1 \<and>
                guard_state_of s1 = Live (length specs) \<and> calls s1 = calls s \<and>
                run uv (map (\<lambda>i. Destroy (length (handles s) + i)) order) s1 = Some s2 \<and>
                guard_state_of s2 = NoInstance \<and> calls s2 = calls s @ [Tty_reset_mode]"
      by blast
  qed
  ultimately show ?thesis by blast
qed

theorem reset_once_per_lifecycle_witness:
  "run mock_uv [] (start 0) = Some (start 0)
   \<and> guard_state_of (start (0::int)) = NoInstance
   \<and> list_all (\<lambda>(specs, order). specs \<noteq> [] \<and> distinct order \<and> set order = {0 ..< length specs})
         [([(0::int, True), (1, False), (2, False)], [1, 2, 0::nat]), ([(0, True)], [0])]
   \<and> (\<exists>s'. lifecycles mock_uv [([(0, True), (1, False), (2, False)], [1, 2, 0]), ([(0, True)], [0])]
               (start 0) = Some s' \<and>
            guard_state_of s' = NoInstance \<and> resets s' = 2)
   \<and> lifecycles mock_uv [([(0, True), (1, False), (2, False)], [1, 2, 0]), ([(0, True)], [0])]
        (start 0) =
       Some \<lparr>weak = Some 1, guards = [0, 0], handles = [None, None, None, None], world = 0,
             calls = [Tty_reset_mode, Tty_reset_mode]\<rparr>"
proof -
  have h1: "run mock_uv [] (start 0) = Some (start 0)" by simp
  have h2: "guard_state_of (start (0::int)) = NoInstance"
    by (simp add: guard_state_of_def live_guards_def start_def)
  have h3: "\<forall>(specs, order) \<in> set [([(0::int, True), (1, False), (2, False)], [1, 2, 0::nat]), ([(0, True)], [0])].
         specs \<noteq> [] \<and> distinct order \<and> set order = {0 ..< length specs}"
    by (auto simp: atLeastLessThanSuc)
  have e: "lifecycles mock_uv [([(0, True), (1, False), (2, False)], [1, 2, 0]), ([(0, True)], [0])]
        (start 0) =
       Some \<lparr>weak = Some 1, guards = [0, 0], handles = [None, None, None, None], world = 0,
             calls = [Tty_reset_mode, Tty_reset_mode]\<rparr>"
    by (simp add: eval_defs)
  from reset_once_per_lifecycle [OF h1 h2 h3] h1 h2 h3 e show ?thesis
    by (simp add: resets_def list_all_iff)
qed

text \<open>
  Claim C8. A handle constructed for a descriptor and a readability flag holds them in
  \<open>fd\<close> and \<open>rw\<close>, and after any run in which it is not destroyed (calls of \<open>init\<close>, \<open>mode\<close>,
  \<open>reset\<close>, \<open>getWinSize\<close> and both \<open>vtermState\<close> on it or on other handles, and the
  construction and destruction of other handles) the object is the same as just after its
  construction. \<open>init\<close> then hands exactly these two values, with \<^verbatim>\<open>uv_tty_init\<close>, to
  \<open>initialize\<close>, which calls \<^verbatim>\<open>uv_tty_init\<close> for this handle with them.
\<close>

theorem descriptor_fixed:
  assumes "TTYHandle_ctor desc readable s = (this, s1)"
      and "run uv evs s1 = Some s2"
      and "Destroy this \<notin> set evs"
  shows "\<exists>h. lookup s1 this = Some h \<and> lookup s2 this = Some h \<and>
             fd h = desc \<and> rw h = (if readable then 1 else 0) \<and>
             init uv this h s2 =
               initialize (call_tty_init uv) this desc (if readable then 1 else 0) s2 \<and>
             init uv this h s2 =
               (fst (uv_tty_init uv this desc (if readable then 1 else 0) (world s2)) = 0,
                s2\<lparr>world := snd (uv_tty_init uv this desc (if readable then 1 else 0) (world s2)),
                   calls := calls s2 @ [Tty_init this desc (if readable then 1 else 0)]\<rparr>)"
proof -
  from ctor_new_handle [OF assms(1)] obtain h where
    h: "lookup s1 this = Some h" "fd h = desc" "rw h = (if readable then 1 else 0)"
    by blast
  from assms(2,3) h(1) have "lookup s2 this = Some h" by (rule lookup_run)
  moreover from h have
    "init uv this h s2 = initialize (call_tty_init uv) this desc (if readable then 1 else 0) s2"
    by (simp add: init_def)
  ultimately show ?thesis using h init_unfold [of uv this h s2] by auto
qed

theorem descriptor_fixed_witness:
  "TTYHandle_ctor 0 True (start (0::int)) =
     (0, \<lparr>weak = Some 0, guards = [1], handles = [Some \<lparr>memo = Some 0, fd = 0, rw = 1\<rparr>],
          world = 0, calls = []\<rparr>)
   \<and> run mock_uv [SetMode 0 1, GetWinSize 0 \<lparr>width = 3, height = 4\<rparr>, Reset 0, SetVTermState 0 0,
                  GetVTermState 0 7, Construct 1 False, Destroy 1]
        \<lparr>weak = Some 0, guards = [1], handles = [Some \<lparr>memo = Some 0, fd = 0, rw = 1\<rparr>],
          world = 0, calls = []\<rparr> =
       Some \<lparr>weak = Some 0, guards = [1],
             handles = [Some \<lparr>memo = Some 0, fd = 0, rw = 1\<rparr>, None], world = 0,
             calls = [Tty_set_mode 0 1, Tty_get_winsize 0, Tty_reset_mode, Tty_set_vterm_state 0,
                      Tty_get_vterm_state]\<rparr>
   \<and> Destroy 0 \<notin> set [SetMode 0 1, GetWinSize 0 \<lparr>width = 3, height = 4\<rparr>, Reset 0,
                        SetVTermState 0 0, GetVTermState 0 7, Construct 1 False, Destroy 1]
   \<and> init mock_uv 0 \<lparr>memo = Some 0, fd = 0, rw = 1\<rparr>
        \<lparr>weak = Some 0, guards = [1],
             handles = [Some \<lparr>memo = Some 0, fd = 0, rw = 1\<rparr>, None], world = 0,
             calls = [Tty_set_mode 0 1, Tty_get_winsize 0, Tty_reset_mode, Tty_set_vterm_state 0,
                      Tty_get_vterm_state]\<rparr> =
       (True, \<lparr>weak = Some 0, guards = [1],
             handles = [Some \<lparr>memo = Some 0, fd = 0, rw = 1\<rparr>, None], world = 0,
             calls = [Tty_set_mode 0 1, Tty_get_winsize 0, Tty_reset_mode, Tty_set_vterm_state 0,
                      Tty_get_vterm_state, Tty_init 0 0 1]\<rparr>)"
proof -
  have c: "TTYHandle_ctor 0 True (start (0::int)) =
     (0, \<lparr>weak = Some 0, guards = [1], handles = [Some \<lparr>memo = Some 0, fd = 0, rw = 1\<rparr>],
          world = 0, calls = []\<rparr>)"
    by (simp add: eval_defs)
  have r: "run mock_uv [SetMode 0 1, GetWinSize 0 \<lparr>width = 3, height = 4\<rparr>, Reset 0, SetVTermState 0 0,
                  GetVTermState 0 7, Construct 1 False, Destroy 1]
        \<lparr>weak = Some 0, guards = [1], handles = [Some \<lparr>memo = Some 0, fd = 0, rw = 1\<rparr>],
          world = 0, calls = []\<rparr> =
       Some \<lparr>weak = Some 0, guards = [1],
             handles = [Some \<lparr>memo = Some 0, fd = 0, rw = 1\<rparr>, None], world = 0,
             calls = [Tty_set_mode 0 1, Tty_get_winsize 0, Tty_reset_mode, Tty_set_vterm_state 0,
                      Tty_get_vterm_state]\<rparr>"
    by (simp add: eval_defs reset_def getWinSize_def call_tty_get_winsize_def vtermState_set_def
          call_tty_set_vterm_state_def vtermState_get_def call_tty_get_vterm_state_def
          SUPPORTED_def UNSUPPORTED_def)
  have d: "Destroy 0 \<notin> set [SetMode 0 1, GetWinSize 0 \<lparr>width = 3, height = 4\<rparr>, Reset 0,
                        SetVTermState 0 0, GetVTermState 0 7, Construct 1 False, Destroy 1]"
    by simp
  from descriptor_fixed [OF c r d] c r d show ?thesis
    by (simp add: lookup_def mock_uv_def init_def initialize_def call_tty_init_def)
qed


end
